theory Spec2Isabelle
  imports Main "HOL-Library.Sublist" "HOL-Library.Multiset"
begin

section \<open>Python strings\<close>

text \<open>
  The script \<^verbatim>\<open>cleanup_duplicate_files.py\<close> works on one Python \<^verbatim>\<open>str\<close>, the text of
  \<^verbatim>\<open>project.pbxproj\<close>. A document is modelled as a HOL \<^typ>\<open>string\<close>: one \<^typ>\<open>char\<close> per
  code point, for the code points below 256. The string methods the script calls are
  written out below with Python's results, the corner cases included
  (\<^verbatim>\<open>''.split('\n') == ['']\<close>, \<^verbatim>\<open>'\n'.join([]) == ''\<close>).
\<close>

definition nl :: char where
  "nl = CHR 0x0A"

text \<open>\<^verbatim>\<open>sub in s\<close>: \<open>sub\<close> occurs in \<open>s\<close> as a contiguous run.\<close>

fun contains :: "string \<Rightarrow> string \<Rightarrow> bool" where
  "contains sub [] = (sub = [])"
| "contains sub (c # cs) = (prefix sub (c # cs) \<or> contains sub cs)"

text \<open>\<^verbatim>\<open>s.split(sep)\<close> for a separator of one character.\<close>

fun push_char :: "char \<Rightarrow> string list \<Rightarrow> string list" where
  "push_char c [] = [[c]]"
| "push_char c (l # ls) = (c # l) # ls"

fun str_split :: "char \<Rightarrow> string \<Rightarrow> string list" where
  "str_split sep [] = [[]]"
| "str_split sep (c # cs) =
     (if c = sep then [] # str_split sep cs else push_char c (str_split sep cs))"

text \<open>\<^verbatim>\<open>sep.join(ls)\<close> for a separator of one character.\<close>

fun str_join :: "char \<Rightarrow> string list \<Rightarrow> string" where
  "str_join sep [] = []"
| "str_join sep [l] = l"
| "str_join sep (l # k # ls) = l @ sep # str_join sep (k # ls)"

text \<open>
  \<^verbatim>\<open>s.rfind(c, 0, e)\<close> for a needle of one character: the highest index below \<open>e\<close> that
  holds \<open>c\<close>, and \<open>-1\<close> when there is none.
\<close>

definition rfind :: "char \<Rightarrow> string \<Rightarrow> nat \<Rightarrow> int" where
  "rfind c s e =
     (let p = take e s in
      if c \<in> set p then int (length p - Suc (length (takeWhile (\<lambda>x. x \<noteq> c) (rev p))))
      else - 1)"

text \<open>
  Python's \<^verbatim>\<open>str.isspace\<close> character test, which both \<^verbatim>\<open>\s\<close> of a \<^verbatim>\<open>str\<close> pattern and
  \<^verbatim>\<open>str.strip()\<close> use: below 256 these are the code points 9 to 13, 28 to 32, 133 and 160.
\<close>

definition is_space :: "char \<Rightarrow> bool" where
  "is_space c \<longleftrightarrow>
     c \<in> {CHR 0x09, CHR 0x0A, CHR 0x0B, CHR 0x0C, CHR 0x0D, CHR 0x1C, CHR 0x1D, CHR 0x1E,
          CHR 0x1F, CHR 0x20, CHR 0x85, CHR 0xA0}"

definition strip :: "string \<Rightarrow> string" where
  "strip s = rev (dropWhile is_space (rev (dropWhile is_space s)))"

text \<open>\<^verbatim>\<open>str(n)\<close> of a natural number, as an f-string prints it.\<close>

fun str_of_nat :: "nat \<Rightarrow> string" where
  "str_of_nat n =
     (if n < 10 then [char_of (48 + n)]
      else str_of_nat (n div 10) @ [char_of (48 + n mod 10)])"


section \<open>The reference scanner\<close>

text \<open>
  \<^verbatim>\<open>parse_file_references\<close> runs \<^verbatim>\<open>re.finditer\<close> with the pattern
  \<^verbatim>\<open>([A-F0-9]{24})\s*/\*\s*([^*]+\.(swift|m|h|storyboard|xib))\s*\*/\<close>.
  The pattern has no anchor and no look-around, so whether it matches at a position
  depends on the text from that position on only. The matcher below follows Python's
  backtracking order piece by piece.
\<close>

record file_ref =
  uuid :: string
  filename :: string
  line :: nat
  full_match :: string

text \<open>The character class \<^verbatim>\<open>[A-F0-9]\<close>.\<close>

definition hex_digit :: "char \<Rightarrow> bool" where
  "hex_digit c \<longleftrightarrow> c \<in> set ''ABCDEF0123456789''"

text \<open>
  The tail \<^verbatim>\<open>\s*\*/\<close>: the greedy \<^verbatim>\<open>\s*\<close> takes the whole run of white space, and giving
  some of it back cannot help, since the next character would then be white space and
  not \<^verbatim>\<open>*\<close>. The result is the number of characters consumed.
\<close>

definition match_close :: "string \<Rightarrow> nat option" where
  "match_close s =
     (if take 2 (dropWhile is_space s) = ''*/''
      then Some (length (takeWhile is_space s) + 2) else None)"

definition extensions :: "string list" where
  "extensions = [''swift'', ''m'', ''h'', ''storyboard'', ''xib'']"

text \<open>
  The alternation \<^verbatim>\<open>(swift|m|h|storyboard|xib)\<close> followed by the tail: the alternatives
  are tried from left to right, and the next one is tried when the tail fails after one
  of them. The result is the alternative taken and the number of characters consumed.
\<close>

fun match_ext :: "string list \<Rightarrow> string \<Rightarrow> (string \<times> nat) option" where
  "match_ext [] s = None"
| "match_ext (e # es) s =
     (if prefix e s then
        (case match_close (drop (length e) s) of
           Some n \<Rightarrow> Some (e, length e + n)
         | None \<Rightarrow> match_ext es s)
      else match_ext es s)"

text \<open>
  \<^verbatim>\<open>[^*]+\.\<close> and what follows, with \<^verbatim>\<open>[^*]+\<close> taking \<open>n\<close> characters: greedy, so the
  longest run is tried first and one character is given back at a time, down to one.
  The result is group 2 (the file name) and the number of characters consumed.
\<close>

fun match_name :: "nat \<Rightarrow> string \<Rightarrow> (string \<times> nat) option" where
  "match_name 0 s = None"
| "match_name (Suc n) s =
     (case (if take 1 (drop (Suc n) s) = ''.'' then match_ext extensions (drop (Suc (Suc n)) s)
            else None) of
        Some (e, k) \<Rightarrow> Some (take (Suc n) s @ ''.'' @ e, Suc (Suc n) + k)
      | None \<Rightarrow> match_name n s)"

definition not_star :: "char \<Rightarrow> bool" where
  "not_star c \<longleftrightarrow> c \<noteq> CHR ''*''"

text \<open>
  The \<^verbatim>\<open>\s*\<close> in front of group 2, taking \<open>k\<close> characters: greedy, and here giving white
  space back matters, because \<^verbatim>\<open>[^*]+\<close> can take it (the file name then starts with
  white space).
\<close>

fun match_ws_name :: "nat \<Rightarrow> string \<Rightarrow> (string \<times> nat) option" where
  "match_ws_name 0 s =
     (case match_name (length (takeWhile not_star s)) s of
        Some (f, n) \<Rightarrow> Some (f, n)
      | None \<Rightarrow> None)"
| "match_ws_name (Suc k) s =
     (case match_name (length (takeWhile not_star (drop (Suc k) s))) (drop (Suc k) s) of
        Some (f, n) \<Rightarrow> Some (f, Suc k + n)
      | None \<Rightarrow> match_ws_name k s)"

text \<open>
  The whole pattern at the head of \<open>s\<close>: group 1 (the identifier), group 2 (the file
  name) and the length of the match. The \<^verbatim>\<open>\s*\<close> after the identifier is followed by
  \<^verbatim>\<open>/\<close>, so it takes the whole run of white space, as in \<^const>\<open>match_close\<close>.
\<close>

definition match_here :: "string \<Rightarrow> (string \<times> string \<times> nat) option" where
  "match_here s =
     (if length (take 24 s) = 24 \<and> list_all hex_digit (take 24 s) then
        (let w = length (takeWhile is_space (drop 24 s));
             r = drop (24 + w) s
         in if take 2 r = ''/*'' then
              (case match_ws_name (length (takeWhile is_space (drop 2 r))) (drop 2 r) of
                 Some (f, n) \<Rightarrow> Some (take 24 s, f, 24 + w + 2 + n)
               | None \<Rightarrow> None)
            else None)
      else None)"

lemma match_here_length:
  assumes "match_here s = Some (u, f, n)"
  shows "24 \<le> n" and "length u = 24" and "u = take 24 s"
  using assms
  by (auto simp: match_here_def Let_def split: if_splits option.splits)

text \<open>
  \<^verbatim>\<open>re.finditer\<close>: the matches from left to right, without overlap. Each is the leftmost
  match at or after the end of the one before. A match is never empty here, so the
  search goes on at its end. The result lists, for each match, its start, group 1,
  group 2 and group 0.
\<close>

function finditer :: "nat \<Rightarrow> string \<Rightarrow> (nat \<times> string \<times> string \<times> string) list" where
  "finditer pos [] = []"
| "finditer pos (c # cs) =
     (case match_here (c # cs) of
        None \<Rightarrow> finditer (Suc pos) cs
      | Some (u, f, n) \<Rightarrow> (pos, u, f, take n (c # cs)) # finditer (pos + n) (drop n (c # cs)))"
  by pat_completeness auto
termination
proof (relation "measure (\<lambda>(pos, s). length s)")
  fix pos :: nat and c :: char and cs :: string and x2 :: "string \<times> string \<times> nat"
    and u :: string and y :: "string \<times> nat" and f :: string and n :: nat
  assume "match_here (c # cs) = Some x2" "(u, y) = x2" "(f, n) = y"
  then have "match_here (c # cs) = Some (u, f, n)" by simp
  then have "24 \<le> n" by (rule match_here_length)
  then show "((pos + n, drop n (c # cs)), (pos, c # cs)) \<in> measure (\<lambda>(pos, s). length s)"
    by simp
qed simp_all

text \<open>
  \<^verbatim>\<open>parse_file_references\<close>: the line of a match is the line its first character is on,
  counted from 1.
\<close>

definition line_of :: "string \<Rightarrow> nat \<Rightarrow> nat" where
  "line_of content start =
     (let line_start = nat (rfind nl content start + 1)
      in count_list (take line_start content) nl + 1)"

definition parse_file_references :: "string \<Rightarrow> file_ref list" where
  "parse_file_references content =
     map (\<lambda>(start, u, f, m).
            \<lparr>uuid = u, filename = f, line = line_of content start, full_match = m\<rparr>)
         (finditer 0 content)"


section \<open>The section indexer\<close>

text \<open>
  \<^verbatim>\<open>find_file_sections\<close> keeps a dictionary from the five section names to the indices
  (from 0) of the lines inside the section, and the section that is open. The dictionary
  is an association list in the order of its keys. For each line, every section name is
  tried in turn: a begin marker opens the section, otherwise an end marker closes
  whatever is open. The line is then recorded under the section that is open, the marker
  line of a begin marker included.
\<close>

definition section_names :: "string list" where
  "section_names =
     [''PBXBuildFile'', ''PBXFileReference'', ''PBXGroup'', ''PBXSourcesBuildPhase'',
      ''PBXResourcesBuildPhase'']"

definition detect_marker :: "string \<Rightarrow> string option \<Rightarrow> string \<Rightarrow> string option" where
  "detect_marker ln current_section section =
     (if contains (''/* Begin '' @ section @ '' section */'') ln then Some section
      else if contains (''/* End '' @ section @ '' section */'') ln then None
      else current_section)"

definition sections_append :: "(string \<times> nat list) list \<Rightarrow> string \<Rightarrow> nat \<Rightarrow> (string \<times> nat list) list" where
  "sections_append sections k i = map (\<lambda>(s, idx). if s = k then (s, idx @ [i]) else (s, idx)) sections"

definition sections_step ::
  "string option \<times> (string \<times> nat list) list \<Rightarrow> nat \<times> string \<Rightarrow>
   string option \<times> (string \<times> nat list) list" where
  "sections_step st il =
     (case st of (current_section, sections) \<Rightarrow>
      case il of (i, ln) \<Rightarrow>
        (let cur = foldl (detect_marker ln) current_section (map fst sections)
         in case cur of
              None \<Rightarrow> (cur, sections)
            | Some k \<Rightarrow> (cur, sections_append sections k i)))"

definition find_file_sections :: "string list \<Rightarrow> (string \<times> nat list) list" where
  "find_file_sections lines =
     snd (foldl sections_step (None, map (\<lambda>s. (s, [])) section_names) (enumerate 0 lines))"


section \<open>The duplicate analyzer\<close>

text \<open>
  \<^verbatim>\<open>analyze_duplicates\<close> groups the references by file name in a \<^verbatim>\<open>defaultdict(list)\<close>,
  here an association list in the order in which the names were first seen. A name with
  more than one reference gives a group: its references sorted by line (\<^verbatim>\<open>list.sort\<close>
  is stable, and so is \<^const>\<open>sort_key\<close>), the first to keep and the others to remove.
\<close>

record dup_info =
  keep :: file_ref
  to_remove :: "file_ref list"

fun group_append :: "(string \<times> file_ref list) list \<Rightarrow> file_ref \<Rightarrow> (string \<times> file_ref list) list" where
  "group_append [] r = [(filename r, [r])]"
| "group_append ((k, rs) # g) r =
     (if k = filename r then (k, rs @ [r]) # g else (k, rs) # group_append g r)"

definition file_groups :: "file_ref list \<Rightarrow> (string \<times> file_ref list) list" where
  "file_groups file_refs = foldl group_append [] file_refs"

definition analyze_duplicates :: "file_ref list \<Rightarrow> (string \<times> dup_info) list" where
  "analyze_duplicates file_refs =
     map (\<lambda>(name, refs).
            (name, \<lparr>keep = hd (sort_key line refs), to_remove = tl (sort_key line refs)\<rparr>))
         (filter (\<lambda>(name, refs). length refs > 1) (file_groups file_refs))"


section \<open>The reference remover\<close>

text \<open>
  \<^verbatim>\<open>remove_duplicate_references\<close> splits the text into lines, computes the section index
  (which it does not use afterwards), collects the identifiers of every \<^verbatim>\<open>remove\<close> list
  in a set, collects the indices of the lines that contain one of them, and rebuilds the
  text from the other lines, counting the ones left out.
\<close>

definition removed_uuids :: "(string \<times> dup_info) list \<Rightarrow> string list" where
  "removed_uuids duplicates = concat (map (\<lambda>(name, info). map uuid (to_remove info)) duplicates)"

definition uuids_to_remove :: "(string \<times> dup_info) list \<Rightarrow> string set" where
  "uuids_to_remove duplicates = set (removed_uuids duplicates)"

definition lines_to_remove :: "string list \<Rightarrow> string set \<Rightarrow> nat set" where
  "lines_to_remove lines uuids =
     (\<Union>u \<in> uuids. set (map fst (filter (\<lambda>(i, ln). contains u ln) (enumerate 0 lines))))"

definition filter_step :: "nat set \<Rightarrow> string list \<times> nat \<Rightarrow> nat \<times> string \<Rightarrow> string list \<times> nat" where
  "filter_step removing acc il =
     (case acc of (filtered_lines, removed_count) \<Rightarrow>
      case il of (i, ln) \<Rightarrow>
        if i \<in> removing then (filtered_lines, removed_count + 1)
        else (filtered_lines @ [ln], removed_count))"

definition remove_duplicate_references :: "string \<Rightarrow> (string \<times> dup_info) list \<Rightarrow> string \<times> nat" where
  "remove_duplicate_references content duplicates =
     (let lines = str_split nl content;
          sections = find_file_sections lines;
          removing = lines_to_remove lines (uuids_to_remove duplicates);
          (filtered_lines, removed_count) = foldl (filter_step removing) ([], 0) (enumerate 0 lines)
      in (str_join nl filtered_lines, removed_count))"

text \<open>The same function with the call of \<^verbatim>\<open>find_file_sections\<close> deleted.\<close>

definition remove_duplicate_references_without_sections ::
  "string \<Rightarrow> (string \<times> dup_info) list \<Rightarrow> string \<times> nat" where
  "remove_duplicate_references_without_sections content duplicates =
     (let lines = str_split nl content;
          removing = lines_to_remove lines (uuids_to_remove duplicates);
          (filtered_lines, removed_count) = foldl (filter_step removing) ([], 0) (enumerate 0 lines)
      in (str_join nl filtered_lines, removed_count))"

text \<open>
  What the remover prints, one line for each line it leaves out:
  \<^verbatim>\<open>print(f"  Removing line {i + 1}: {line.strip()[:80]}...")\<close>. Nothing else in the
  scanner, the indexer, the analyzer or the remover prints, warns or raises.
\<close>

definition remove_duplicate_references_stdout :: "string \<Rightarrow> (string \<times> dup_info) list \<Rightarrow> string list" where
  "remove_duplicate_references_stdout content duplicates =
     (let lines = str_split nl content;
          removing = lines_to_remove lines (uuids_to_remove duplicates)
      in map (\<lambda>(i, ln). ''  Removing line '' @ str_of_nat (i + 1) @ '': '' @ take 80 (strip ln) @ ''...'')
           (filter (\<lambda>(i, ln). i \<in> removing) (enumerate 0 lines)))"


text \<open>The test of the remover's inner loop: some identifier of the set occurs in the line.\<close>

definition hit :: "string set \<Rightarrow> string \<Rightarrow> bool" where
  "hit U ln \<longleftrightarrow> (\<exists>u \<in> U. contains u ln)"


section \<open>The structural validator\<close>

definition required_sections :: "string list" where
  "required_sections =
     [''/* Begin PBXBuildFile section */'', ''/* End PBXBuildFile section */'',
      ''/* Begin PBXFileReference section */'', ''/* End PBXFileReference section */'',
      ''/* Begin PBXGroup section */'', ''/* End PBXGroup section */'',
      ''/* Begin PBXProject section */'', ''/* End PBXProject section */'']"

definition validate_project_file :: "string \<Rightarrow> bool \<times> string" where
  "validate_project_file content =
     (case find (\<lambda>section. \<not> contains section content) required_sections of
        Some section \<Rightarrow> (False, ''Missing required section: '' @ section)
      | None \<Rightarrow>
          (let open_braces = count_list content CHR ''{'';
               close_braces = count_list content CHR ''}''
           in if open_braces \<noteq> close_braces then
                (False, ''Unbalanced braces: '' @ str_of_nat open_braces @ '' open, '' @
                        str_of_nat close_braces @ '' close'')
              else (True, ''OK'')))"


section \<open>The pipeline\<close>

text \<open>
  Steps 3, 4 and 6 of \<^verbatim>\<open>main\<close>: scan the text, analyze the references, remove. Step 7
  validates the text that comes out.
\<close>

definition duplicates_of :: "string \<Rightarrow> (string \<times> dup_info) list" where
  "duplicates_of content = analyze_duplicates (parse_file_references content)"

definition cleaned :: "string \<Rightarrow> string \<times> nat" where
  "cleaned content = remove_duplicate_references content (duplicates_of content)"


section \<open>Facts about the string operations\<close>

lemma contains_sublist: "contains sub s \<longleftrightarrow> sublist sub s"
  by (induction s) (simp_all add: sublist_Cons_right)

lemma str_split_not_Nil: "str_split sep s \<noteq> []"
proof (induction s)
  case Nil
  show ?case by simp
next
  case (Cons c cs)
  then show ?case by (cases "str_split sep cs") simp_all
qed

lemma str_join_Cons: "ls \<noteq> [] \<Longrightarrow> str_join sep (l # ls) = l @ sep # str_join sep ls"
  by (cases ls) simp_all

lemma str_join_push_char: "ls \<noteq> [] \<Longrightarrow> str_join sep (push_char c ls) = c # str_join sep ls"
proof (cases ls)
  case Nil
  assume "ls \<noteq> []"
  with Nil show ?thesis by simp
next
  case (Cons l ks)
  then show ?thesis by (cases ks) simp_all
qed

lemma str_join_split: "str_join sep (str_split sep s) = s"
proof (induction s)
  case Nil
  show ?case by simp
next
  case (Cons c cs)
  then show ?case
    by (simp add: str_join_Cons str_join_push_char str_split_not_Nil)
qed

lemma str_split_no_sep: "l \<in> set (str_split sep s) \<Longrightarrow> sep \<notin> set l"
proof (induction s arbitrary: l)
  case Nil
  then show ?case by simp
next
  case (Cons c cs)
  show ?case
  proof (cases "c = sep")
    case True
    with Cons show ?thesis by auto
  next
    case False
    obtain k ks where ks: "str_split sep cs = k # ks"
      using str_split_not_Nil [of sep cs] by (cases "str_split sep cs") auto
    with False Cons.prems have "l = c # k \<or> l \<in> set ks" by simp
    moreover have "sep \<notin> set k" using Cons.IH [of k] ks by simp
    moreover have "l \<in> set ks \<Longrightarrow> sep \<notin> set l" using Cons.IH [of l] ks by simp
    ultimately show ?thesis using False by auto
  qed
qed

lemma str_split_plain: "sep \<notin> set l \<Longrightarrow> str_split sep l = [l]"
  by (induction l) auto

lemma str_split_append_sep:
  "sep \<notin> set l \<Longrightarrow> str_split sep (l @ sep # r) = l # str_split sep r"
  by (induction l) auto

lemma str_split_join:
  "ls \<noteq> [] \<Longrightarrow> \<forall>l \<in> set ls. sep \<notin> set l \<Longrightarrow> str_split sep (str_join sep ls) = ls"
proof (induction sep ls rule: str_join.induct)
  case (1 sep)
  then show ?case by simp
next
  case (2 sep l)
  then show ?case by (simp add: str_split_plain)
next
  case (3 sep l k ls)
  then show ?case by (simp add: str_split_append_sep)
qed

lemma sublist_across_sep:
  assumes "sublist sub (xs @ sep # ys)" and "sep \<notin> set sub"
  shows "sublist sub xs \<or> sublist sub ys"
proof -
  from assms(1) consider "sublist sub xs" | "sublist sub (sep # ys)"
    | xs1 xs2 where "sub = xs1 @ xs2" "suffix xs1 xs" "prefix xs2 (sep # ys)"
    by (auto simp: sublist_append)
  then show ?thesis
  proof cases
    case 1
    then show ?thesis ..
  next
    case 2
    then have "prefix sub (sep # ys) \<or> sublist sub ys" by (simp add: sublist_Cons_right)
    moreover have "sublist sub ys" if "prefix sub (sep # ys)"
    proof -
      from that assms(2) have "sub = []" by (cases sub) auto
      then show ?thesis by simp
    qed
    ultimately show ?thesis by blast
  next
    case 3
    from 3(3) assms(2) 3(1) have "xs2 = []" by (cases xs2) auto
    with 3(1,2) show ?thesis by auto
  qed
qed

lemma contains_join_line:
  assumes "contains sub (str_join sep ls)" and "sep \<notin> set sub" and "sub \<noteq> []"
  shows "\<exists>l \<in> set ls. contains sub l"
  using assms
proof (induction sep ls rule: str_join.induct)
  case (1 sep)
  then show ?case by simp
next
  case (2 sep l)
  then show ?case by simp
next
  case (3 sep l k ls)
  from 3(2) have "sublist sub (l @ sep # str_join sep (k # ls))"
    by (simp add: contains_sublist)
  then have "sublist sub l \<or> sublist sub (str_join sep (k # ls))"
    using 3(3) by (rule sublist_across_sep)
  with 3 show ?case by (auto simp: contains_sublist)
qed

lemma contains_line_join:
  assumes "l \<in> set ls" and "contains sub l"
  shows "contains sub (str_join sep ls)"
  using assms
proof (induction sep ls rule: str_join.induct)
  case (1 sep)
  then show ?case by simp
next
  case (2 sep l')
  then show ?case by simp
next
  case (3 sep l' k ls)
  show ?case
  proof (cases "l = l'")
    case True
    with 3(3) have "sublist sub l'" by (simp add: contains_sublist)
    then show ?thesis by (auto simp: contains_sublist sublist_append)
  next
    case False
    with 3 have "contains sub (str_join sep (k # ls))" by auto
    then show ?thesis by (auto simp: contains_sublist sublist_append sublist_Cons_right)
  qed
qed


section \<open>Facts about the remover\<close>

lemma filter_step_foldl:
  "foldl (filter_step R) (acc, n) (enumerate k ls) =
     (acc @ map snd (filter (\<lambda>(i, ln). i \<notin> R) (enumerate k ls)),
      n + length (filter (\<lambda>(i, ln). i \<in> R) (enumerate k ls)))"
  by (induction ls arbitrary: acc n k) (simp_all add: filter_step_def)

lemma lines_to_remove_iff:
  "i \<in> lines_to_remove lines U \<longleftrightarrow> i < length lines \<and> (\<exists>u \<in> U. contains u (lines ! i))"
  by (auto simp: lines_to_remove_def in_set_enumerate_eq image_iff)

lemma enumerate_filter_snd:
  "map snd (filter (\<lambda>(i, ln). P ln) (enumerate k ls)) = filter P ls"
  by (induction ls arbitrary: k) simp_all

lemma enumerate_filter_cong:
  "(\<And>i. i < length ls \<Longrightarrow> A i = B (ls ! i)) \<Longrightarrow>
   filter (\<lambda>(i, ln). A i) (enumerate 0 ls) = filter (\<lambda>(i, ln). B ln) (enumerate 0 ls)"
  by (rule filter_cong) (auto simp: in_set_enumerate_eq)

lemma remove_duplicate_references_eq:
  "remove_duplicate_references content duplicates =
     (str_join nl (filter (\<lambda>ln. \<not> hit (uuids_to_remove duplicates) ln) (str_split nl content)),
      length (filter (hit (uuids_to_remove duplicates)) (str_split nl content)))"
proof -
  let ?ls = "str_split nl content" and ?U = "uuids_to_remove duplicates"
  let ?R = "lines_to_remove ?ls ?U"
  have in_R: "(i \<in> ?R) = hit ?U (?ls ! i)" if "i < length ?ls" for i
    using that by (simp add: lines_to_remove_iff hit_def)
  have "filter (\<lambda>(i, ln). i \<in> ?R) (enumerate 0 ?ls) = filter (\<lambda>(i, ln). hit ?U ln) (enumerate 0 ?ls)"
    using in_R by (rule enumerate_filter_cong)
  then have a: "length (filter (\<lambda>(i, ln). i \<in> ?R) (enumerate 0 ?ls)) = length (filter (hit ?U) ?ls)"
    using enumerate_filter_snd [of "hit ?U" 0 ?ls] by (metis length_map)
  have "filter (\<lambda>(i, ln). i \<notin> ?R) (enumerate 0 ?ls) = filter (\<lambda>(i, ln). \<not> hit ?U ln) (enumerate 0 ?ls)"
    using in_R by (intro enumerate_filter_cong) simp
  then have b: "map snd (filter (\<lambda>(i, ln). i \<notin> ?R) (enumerate 0 ?ls)) = filter (\<lambda>ln. \<not> hit ?U ln) ?ls"
    by (simp add: enumerate_filter_snd)
  show ?thesis
    by (simp add: remove_duplicate_references_def Let_def filter_step_foldl a b)
qed


section \<open>Facts about the analyzer\<close>

lemma map_of_group_append:
  "map_of (group_append g r) k =
     (if k = filename r then Some ((case map_of g k of None \<Rightarrow> [] | Some rs \<Rightarrow> rs) @ [r])
      else map_of g k)"
  by (induction g r rule: group_append.induct) auto

lemma keys_group_append:
  "map fst (group_append g r) =
     (if filename r \<in> fst ` set g then map fst g else map fst g @ [filename r])"
  by (induction g r rule: group_append.induct) auto

lemma mset_group_append:
  "mset (concat (map snd (group_append g r))) = mset (concat (map snd g)) + {#r#}"
  by (induction g r rule: group_append.induct) auto

lemma file_groups_snoc: "file_groups (refs @ [r]) = group_append (file_groups refs) r"
  by (simp add: file_groups_def)

lemma file_groups_distinct: "distinct (map fst (file_groups refs))"
proof (induction refs rule: rev_induct)
  case Nil
  show ?case by (simp add: file_groups_def)
next
  case (snoc r refs)
  then show ?case by (auto simp: file_groups_snoc keys_group_append)
qed

lemma file_groups_lookup:
  "map_of (file_groups refs) k =
     (if filter (\<lambda>r. filename r = k) refs = [] then None
      else Some (filter (\<lambda>r. filename r = k) refs))"
proof (induction refs rule: rev_induct)
  case Nil
  show ?case by (simp add: file_groups_def)
next
  case (snoc r refs)
  then show ?case by (auto simp: file_groups_snoc map_of_group_append)
qed

lemma file_groups_member:
  assumes "(k, rs) \<in> set (file_groups refs)"
  shows "rs = filter (\<lambda>r. filename r = k) refs" and "rs \<noteq> []"
proof -
  from assms have "map_of (file_groups refs) k = Some rs"
    by (simp add: file_groups_distinct)
  then show "rs = filter (\<lambda>r. filename r = k) refs" and "rs \<noteq> []"
    by (auto simp: file_groups_lookup split: if_splits)
qed

lemma mset_file_groups: "mset (concat (map snd (file_groups refs))) = mset refs"
proof (induction refs rule: rev_induct)
  case Nil
  show ?case by (simp add: file_groups_def)
next
  case (snoc r refs)
  then show ?case by (simp add: file_groups_snoc mset_group_append)
qed

lemma distinct_map_filter_le1:
  "distinct (map f xs) \<Longrightarrow> length (filter (\<lambda>x. f x = k) xs) \<le> 1"
proof (induction xs)
  case Nil
  show ?case by simp
next
  case (Cons x xs)
  show ?case
  proof (cases "f x = k")
    case True
    from Cons.prems have "f x \<notin> f ` set xs" by simp
    with True have "\<forall>y \<in> set xs. f y \<noteq> k" by blast
    then have "filter (\<lambda>x. f x = k) xs = []"
      by (simp add: filter_empty_conv)
    with True show ?thesis by simp
  next
    case False
    with Cons show ?thesis by simp
  qed
qed

lemma analyze_duplicates_member:
  assumes "(name, info) \<in> set (analyze_duplicates refs)"
  obtains rs where "(name, rs) \<in> set (file_groups refs)" and "1 < length rs"
    and "sort_key line rs = keep info # to_remove info"
proof -
  from assms obtain rs where rs: "(name, rs) \<in> set (file_groups refs)" "1 < length rs"
    and info: "info = \<lparr>keep = hd (sort_key line rs), to_remove = tl (sort_key line rs)\<rparr>"
    by (auto simp: analyze_duplicates_def)
  from rs(2) have "sort_key line rs \<noteq> []" by (metis length_sort list.size(3) not_less_zero)
  with info have "sort_key line rs = keep info # to_remove info" by simp
  with rs that show thesis by blast
qed

lemma analyze_duplicates_subset:
  assumes "(name, info) \<in> set (analyze_duplicates refs)"
  shows "set (to_remove info) \<subseteq> set refs" and "keep info \<in> set refs"
    and "\<forall>r \<in> set (keep info # to_remove info). filename r = name"
proof -
  from assms obtain rs where rs: "(name, rs) \<in> set (file_groups refs)"
    and s: "sort_key line rs = keep info # to_remove info"
    by (rule analyze_duplicates_member)
  have eq: "set (keep info # to_remove info) = set rs"
    using s by (metis set_sort)
  have "set rs \<subseteq> set refs" and "\<forall>r \<in> set rs. filename r = name"
    using file_groups_member(1) [OF rs] by auto
  with eq show "set (to_remove info) \<subseteq> set refs" and "keep info \<in> set refs"
    and "\<forall>r \<in> set (keep info # to_remove info). filename r = name"
    by auto
qed

lemma analyze_duplicates_keep_first:
  assumes "(name, info) \<in> set (analyze_duplicates refs)" and "r \<in> set (to_remove info)"
  shows "line (keep info) \<le> line r"
proof -
  from assms(1) obtain rs where "sort_key line rs = keep info # to_remove info"
    by (rule analyze_duplicates_member)
  then have "sorted (map line (keep info # to_remove info))"
    by (metis sorted_sort_key)
  with assms(2) show ?thesis by auto
qed

lemma analyze_duplicates_empty:
  assumes "distinct (map filename refs)"
  shows "analyze_duplicates refs = []"
proof -
  have "\<not> 1 < length rs" if "(name, rs) \<in> set (file_groups refs)" for name rs
    using file_groups_member(1) [OF that] distinct_map_filter_le1 [OF assms, of name] by simp
  then have "filter (\<lambda>(name, refs). length refs > 1) (file_groups refs) = []"
    by (auto simp: filter_empty_conv)
  then show ?thesis by (simp add: analyze_duplicates_def)
qed


section \<open>Facts about the scanner and the pipeline\<close>

lemma finditer_uuid_length:
  "(start, u, f, m) \<in> set (finditer pos s) \<Longrightarrow> length u = 24"
proof (induction pos s rule: finditer.induct)
  case (1 pos)
  then show ?case by simp
next
  case (2 pos c cs)
  show ?case
  proof (cases "match_here (c # cs)")
    case None
    with 2 show ?thesis by simp
  next
    case (Some x)
    obtain u' f' n where x: "x = (u', f', n)" by (cases x)
    with Some have len: "length u' = 24" by (auto dest: match_here_length(2))
    from 2(3) Some x
    have "(start, u, f, m) = (pos, u', f', take n (c # cs)) \<or>
          (start, u, f, m) \<in> set (finditer (pos + n) (drop n (c # cs)))"
      by simp
    then show ?thesis
    proof
      assume "(start, u, f, m) = (pos, u', f', take n (c # cs))"
      with len show ?thesis by simp
    next
      assume "(start, u, f, m) \<in> set (finditer (pos + n) (drop n (c # cs)))"
      with 2(2) Some x show ?thesis by simp
    qed
  qed
qed

lemma parse_file_references_uuid_length:
  "r \<in> set (parse_file_references content) \<Longrightarrow> length (uuid r) = 24"
  by (auto simp: parse_file_references_def dest: finditer_uuid_length)

lemma removed_uuids_member:
  assumes "u \<in> set (removed_uuids (analyze_duplicates refs))"
  obtains r where "r \<in> set refs" and "uuid r = u"
proof -
  from assms obtain name info r where "(name, info) \<in> set (analyze_duplicates refs)"
    and "r \<in> set (to_remove info)" and "uuid r = u"
    by (auto simp: removed_uuids_def)
  with that show thesis using analyze_duplicates_subset(1) by blast
qed

lemma uuids_to_remove_length:
  "u \<in> uuids_to_remove (duplicates_of content) \<Longrightarrow> length u = 24"
  unfolding uuids_to_remove_def duplicates_of_def
  by (erule removed_uuids_member) (auto dest: parse_file_references_uuid_length)

text \<open>The lines of the rewritten text: the lines that were kept, or one empty line.\<close>

lemma rewritten_lines:
  assumes "ln \<in> set (str_split nl (fst (remove_duplicate_references content duplicates)))"
  shows "ln = [] \<or> (ln \<in> set (str_split nl content) \<and> \<not> hit (uuids_to_remove duplicates) ln)"
proof -
  let ?F = "filter (\<lambda>ln. \<not> hit (uuids_to_remove duplicates) ln) (str_split nl content)"
  from assms have ln: "ln \<in> set (str_split nl (str_join nl ?F))"
    by (simp add: remove_duplicate_references_eq)
  show ?thesis
  proof (cases "?F = []")
    case True
    with ln show ?thesis by simp
  next
    case False
    have "\<forall>l \<in> set ?F. nl \<notin> set l" by (auto dest: str_split_no_sep)
    with False have "str_split nl (str_join nl ?F) = ?F" by (rule str_split_join)
    with ln show ?thesis by auto
  qed
qed

lemma rewritten_lines_unhit:
  assumes "ln \<in> set (str_split nl (fst (remove_duplicate_references content duplicates)))"
    and "[] \<notin> uuids_to_remove duplicates"
  shows "\<not> hit (uuids_to_remove duplicates) ln"
proof -
  from assms(1) have "ln = [] \<or> \<not> hit (uuids_to_remove duplicates) ln"
    by (auto dest: rewritten_lines)
  moreover have "\<not> hit (uuids_to_remove duplicates) []"
    using assms(2) by (auto simp: hit_def)
  ultimately show ?thesis by blast
qed

lemma remove_again:
  assumes "[] \<notin> uuids_to_remove duplicates"
  shows "remove_duplicate_references (fst (remove_duplicate_references content duplicates)) duplicates
         = (fst (remove_duplicate_references content duplicates), 0)"
proof -
  let ?out = "fst (remove_duplicate_references content duplicates)"
  have "\<forall>ln \<in> set (str_split nl ?out). \<not> hit (uuids_to_remove duplicates) ln"
    using assms by (auto dest: rewritten_lines_unhit)
  then have "filter (\<lambda>ln. \<not> hit (uuids_to_remove duplicates) ln) (str_split nl ?out) = str_split nl ?out"
    and "filter (hit (uuids_to_remove duplicates)) (str_split nl ?out) = []"
    by (simp_all add: filter_empty_conv)
  then show ?thesis
    by (simp add: remove_duplicate_references_eq [of ?out] str_join_split)
qed

lemma remove_nothing: "remove_duplicate_references content [] = (content, 0)"
  by (simp add: remove_duplicate_references_eq uuids_to_remove_def removed_uuids_def hit_def
      str_join_split)

lemma no_duplicates_cleaned:
  assumes "distinct (map filename (parse_file_references content))"
  shows "duplicates_of content = []" and "cleaned content = (content, 0)"
proof -
  show "duplicates_of content = []"
    using assms by (simp add: duplicates_of_def analyze_duplicates_empty)
  then show "cleaned content = (content, 0)"
    by (simp add: cleaned_def remove_nothing)
qed

lemma marker_survives:
  assumes "contains m (fst (remove_duplicate_references content duplicates))"
    and "nl \<notin> set m" and "m \<noteq> []"
  shows "contains m content"
proof -
  let ?F = "filter (\<lambda>ln. \<not> hit (uuids_to_remove duplicates) ln) (str_split nl content)"
  from assms(1) have "contains m (str_join nl ?F)"
    by (simp add: remove_duplicate_references_eq)
  then obtain l where "l \<in> set ?F" and "contains m l"
    using assms(2,3) by (blast dest: contains_join_line)
  then have "contains m (str_join nl (str_split nl content))"
    by (intro contains_line_join [of l]) auto
  then show ?thesis by (simp add: str_join_split)
qed

lemma required_section_shape:
  "m \<in> set required_sections \<Longrightarrow> nl \<notin> set m \<and> m \<noteq> []"
  by (auto simp: required_sections_def nl_def)

section \<open>Facts about the identifiers to remove\<close>

lemma distinct_iff_count_le1: "distinct ys \<longleftrightarrow> (\<forall>a. count (mset ys) a \<le> 1)"
proof (induction ys)
  case Nil
  show ?case by simp
next
  case (Cons y ys)
  show ?case
  proof
    assume d: "distinct (y # ys)"
    then have "count (mset ys) y = 0" by (simp add: count_eq_zero_iff)
    with d Cons show "\<forall>a. count (mset (y # ys)) a \<le> 1" by auto
  next
    assume c: "\<forall>a. count (mset (y # ys)) a \<le> 1"
    then have "count (mset (y # ys)) y \<le> 1" by blast
    then have "y \<notin> set ys" by (simp add: count_eq_zero_iff [symmetric])
    moreover have "\<forall>a. count (mset ys) a \<le> 1"
    proof
      fix a
      from c have le: "count (mset (y # ys)) a \<le> 1" by blast
      show "count (mset ys) a \<le> 1"
      proof (cases "y = a")
        case True
        with le have "count (mset ys) a = 0" by simp
        then show ?thesis by linarith
      next
        case False
        with le show ?thesis by simp
      qed
    qed
    ultimately show "distinct (y # ys)" using Cons by simp
  qed
qed

lemma distinct_mset_subseteq:
  assumes "mset ys \<subseteq># mset xs" and "distinct xs"
  shows "distinct ys"
proof -
  have "count (mset ys) a \<le> 1" for a
  proof -
    have "count (mset ys) a \<le> count (mset xs) a"
      using assms(1) by (rule mset_subset_eq_count)
    also have "\<dots> \<le> 1" using assms(2) by (simp add: distinct_iff_count_le1)
    finally show ?thesis .
  qed
  then show ?thesis by (simp add: distinct_iff_count_le1)
qed

lemma mset_tl_subseteq: "mset (tl xs) \<subseteq># mset xs"
  by (cases xs) simp_all

lemma mset_removed_refs:
  "mset (concat (map (\<lambda>(name, rs). tl (sort_key line rs)) (filter P g)))
     \<subseteq># mset (concat (map snd g))"
proof (induction g)
  case Nil
  show ?case by simp
next
  case (Cons p g)
  obtain name rs where p: "p = (name, rs)" by (cases p)
  have "mset (tl (sort_key line rs)) \<subseteq># mset rs"
    using mset_tl_subseteq [of "sort_key line rs"] by simp
  with Cons have "mset (tl (sort_key line rs)) +
      mset (concat (map (\<lambda>(name, rs). tl (sort_key line rs)) (filter P g)))
      \<subseteq># mset rs + mset (concat (map snd g))"
    by (rule_tac mset_subset_eq_mono_add)
  moreover have "mset (concat (map (\<lambda>(name, rs). tl (sort_key line rs)) (filter P g)))
      \<subseteq># mset rs + mset (concat (map snd g))"
    using Cons by (simp add: subset_mset.add_increasing)
  ultimately show ?case using p by simp
qed

lemma removed_uuids_analyze:
  "removed_uuids (analyze_duplicates refs) =
     map uuid (concat (map (\<lambda>(name, rs). tl (sort_key line rs))
                        (filter (\<lambda>(name, rs). 1 < length rs) (file_groups refs))))"
  by (simp add: removed_uuids_def analyze_duplicates_def map_concat comp_def case_prod_unfold)

lemma removed_uuids_distinct:
  assumes "distinct (map uuid refs)"
  shows "distinct (removed_uuids (analyze_duplicates refs))"
proof -
  let ?R = "concat (map (\<lambda>(name, rs). tl (sort_key line rs))
                        (filter (\<lambda>(name, rs). 1 < length rs) (file_groups refs)))"
  have "mset ?R \<subseteq># mset refs"
    using mset_removed_refs [of "\<lambda>(name, rs). 1 < length rs" "file_groups refs"]
    by (simp add: mset_file_groups)
  then have "mset (map uuid ?R) \<subseteq># mset (map uuid refs)"
    by (simp add: image_mset_subseteq_mono)
  then have "distinct (map uuid ?R)" using assms by (rule distinct_mset_subseteq)
  then show ?thesis by (simp add: removed_uuids_analyze)
qed


section \<open>The scanner, line by line\<close>

subsection \<open>A match lies inside the text it was found in\<close>

lemma match_close_within: "match_close s = Some n \<Longrightarrow> n \<le> length s"
proof -
  assume a: "match_close s = Some n"
  then have t: "take 2 (dropWhile is_space s) = ''*/''" and n: "n = length (takeWhile is_space s) + 2"
    by (auto simp: match_close_def split: if_splits)
  from t have "2 \<le> length (dropWhile is_space s)"
    by (metis length_take min.cobounded1 length_Cons list.size(3) One_nat_def Suc_1)
  moreover have "length (takeWhile is_space s) + length (dropWhile is_space s) = length s"
    by (metis length_append takeWhile_dropWhile_id)
  ultimately show ?thesis using n by linarith
qed

lemma match_ext_within: "match_ext es s = Some (e, k) \<Longrightarrow> k \<le> length s"
proof (induction es)
  case Nil
  then show ?case by simp
next
  case (Cons e' es)
  show ?case
  proof (cases "prefix e' s")
    case False
    with Cons show ?thesis by simp
  next
    case True
    show ?thesis
    proof (cases "match_close (drop (length e') s)")
      case None
      with True Cons show ?thesis by simp
    next
      case (Some n)
      then have "n \<le> length s - length e'" by (auto dest: match_close_within)
      moreover from True have "length e' \<le> length s" by (rule prefix_length_le)
      moreover from True Some Cons.prems have "k = length e' + n" by auto
      ultimately show ?thesis by linarith
    qed
  qed
qed

lemma match_name_within: "match_name n s = Some (f, k) \<Longrightarrow> k \<le> length s"
proof (induction n)
  case 0
  then show ?case by simp
next
  case (Suc n)
  show ?case
  proof (cases "take 1 (drop (Suc n) s) = ''.''")
    case False
    with Suc show ?thesis by simp
  next
    case True
    then have len: "Suc (Suc n) \<le> length s"
      by (metis Suc_leI drop_eq_Nil2 leI list.distinct(1) take_Nil)
    show ?thesis
    proof (cases "match_ext extensions (drop (Suc (Suc n)) s)")
      case None
      with True Suc show ?thesis by simp
    next
      case (Some x)
      obtain e j where x: "x = (e, j)" by (cases x)
      with Some have "j \<le> length s - Suc (Suc n)" by (auto dest: match_ext_within)
      moreover from True Some x Suc.prems have "k = Suc (Suc n) + j" by simp
      ultimately show ?thesis using len by linarith
    qed
  qed
qed

lemma match_name_Nil: "match_name n [] = None"
  by (induction n) simp_all

lemma match_ws_name_within: "match_ws_name k s = Some (f, n) \<Longrightarrow> n \<le> length s"
proof (induction k)
  case 0
  then show ?case by (auto split: option.splits dest: match_name_within)
next
  case (Suc k)
  let ?d = "drop (Suc k) s"
  show ?case
  proof (cases "match_name (length (takeWhile not_star ?d)) ?d")
    case None
    with Suc show ?thesis by simp
  next
    case (Some x)
    obtain g j where x: "x = (g, j)" by (cases x)
    with Some have j: "j \<le> length ?d" by (auto dest: match_name_within)
    from Some have "?d \<noteq> []" by (auto simp: match_name_Nil)
    then have "Suc k < length s" by simp
    moreover from Some x Suc.prems have "n = Suc k + j" by simp
    ultimately show ?thesis using j by simp
  qed
qed

lemma match_here_within: "match_here s = Some (u, f, n) \<Longrightarrow> n \<le> length s"
proof -
  assume a: "match_here s = Some (u, f, n)"
  define w where "w = length (takeWhile is_space (drop 24 s))"
  define r where "r = drop (24 + w) s"
  from a obtain j where r2: "take 2 r = ''/*''"
    and j: "match_ws_name (length (takeWhile is_space (drop 2 r))) (drop 2 r) = Some (f, j)"
    and n: "n = 24 + w + 2 + j"
    by (auto simp: match_here_def Let_def w_def r_def split: if_splits option.splits)
  from j have "j \<le> length (drop 2 r)" by (rule match_ws_name_within)
  moreover from r2 have "2 \<le> length r"
    by (metis length_take min.cobounded1 length_Cons list.size(3) One_nat_def Suc_1)
  moreover have "length r = length s - (24 + w)" by (simp add: r_def)
  moreover from \<open>2 \<le> length r\<close> have "24 + w \<le> length s" by (simp add: r_def)
  ultimately show ?thesis using n by simp
qed

lemma line_of_count: "line_of content start = count_list (take start content) nl + 1"
proof (cases "nl \<in> set (take start content)")
  case False
  then show ?thesis by (simp add: line_of_def rfind_def)
next
  case True
  then obtain a b where p: "take start content = a @ nl # b" and b: "nl \<notin> set b"
    by (meson split_list_last)
  have tw: "takeWhile (\<lambda>x. x \<noteq> nl) (rev (take start content)) = rev b"
    using b by (auto simp: p takeWhile_tail)
  have "length (take start content) = length a + Suc (length b)" by (simp add: p)
  then have rf: "rfind nl content start = int (length a)"
    using True by (simp add: rfind_def Let_def tw)
  have "take (Suc (length a)) content = take (Suc (length a)) (take start content)"
    using \<open>length (take start content) = length a + Suc (length b)\<close>
    by (simp add: min_def split: if_splits)
  also have "\<dots> = a @ [nl]" by (simp add: p)
  finally have "take (Suc (length a)) content = a @ [nl]" .
  then show ?thesis using b by (simp add: line_of_def rf p nat_add_distrib)
qed


subsection \<open>The scanner with a running line counter\<close>

text \<open>
  \<open>refs_from n s\<close> scans \<open>s\<close> as \<^const>\<open>finditer\<close> does and numbers the lines as it goes,
  starting from \<open>n\<close>. It is \<^const>\<open>parse_file_references\<close> when started at line 1
  (\<open>parse_file_references_refs_from\<close> below). A line is local when no match that starts
  in it depends on the text after its line break.
\<close>

function refs_from :: "nat \<Rightarrow> string \<Rightarrow> file_ref list" where
  "refs_from n [] = []"
| "refs_from n (c # cs) =
     (case match_here (c # cs) of
        None \<Rightarrow> refs_from (if c = nl then Suc n else n) cs
      | Some (u, f, k) \<Rightarrow>
          \<lparr>uuid = u, filename = f, line = n, full_match = take k (c # cs)\<rparr>
          # refs_from (n + count_list (take k (c # cs)) nl) (drop k (c # cs)))"
  by pat_completeness auto
termination
proof (relation "measure (\<lambda>(n, s). length s)")
  fix n :: nat and c :: char and cs :: string and x2 :: "string \<times> string \<times> nat"
    and u :: string and y :: "string \<times> nat" and f :: string and k :: nat
  assume "match_here (c # cs) = Some x2" "(u, y) = x2" "(f, k) = y"
  then have "match_here (c # cs) = Some (u, f, k)" by simp
  then have "24 \<le> k" by (rule match_here_length)
  then show "((n + count_list (take k (c # cs)) nl, drop k (c # cs)), (n, c # cs))
      \<in> measure (\<lambda>(n, s). length s)"
    by simp
qed simp_all

definition line_local :: "string \<Rightarrow> bool" where
  "line_local l \<longleftrightarrow>
     nl \<notin> set l \<and> (\<forall>t rest. suffix t l \<longrightarrow> match_here (t @ nl # rest) = match_here t)"

lemma finditer_refs_from:
  "length pre = pos \<Longrightarrow>
   map (\<lambda>(start, u, f, m).
          \<lparr>uuid = u, filename = f, line = line_of (pre @ s) start, full_match = m\<rparr>)
       (finditer pos s)
   = refs_from (count_list pre nl + 1) s"
proof (induction pos s arbitrary: pre rule: finditer.induct)
  case (1 pos)
  show ?case by simp
next
  case (2 pos c cs)
  show ?case
  proof (cases "match_here (c # cs)")
    case None
    have "map (\<lambda>(start, u, f, m).
          \<lparr>uuid = u, filename = f, line = line_of ((pre @ [c]) @ cs) start, full_match = m\<rparr>)
       (finditer (Suc pos) cs) = refs_from (count_list (pre @ [c]) nl + 1) cs"
      using None "2.prems" by (intro "2.IH"(1)) simp_all
    with None show ?thesis by simp
  next
    case (Some x)
    obtain u f k where x: "x = (u, f, k)" by (cases x)
    with Some have k: "k \<le> length (c # cs)" by (auto dest: match_here_within)
    let ?pre = "pre @ take k (c # cs)"
    have "map (\<lambda>(start, u, f, m).
          \<lparr>uuid = u, filename = f, line = line_of (?pre @ drop k (c # cs)) start, full_match = m\<rparr>)
       (finditer (pos + k) (drop k (c # cs)))
       = refs_from (count_list ?pre nl + 1) (drop k (c # cs))"
      using Some x k "2.prems" by (intro "2.IH"(2)) (simp_all add: min_def)
    moreover have "line_of (pre @ c # cs) pos = count_list pre nl + 1"
      using "2.prems" by (simp add: line_of_count)
    ultimately show ?thesis using Some x by simp
  qed
qed

lemma parse_file_references_refs_from: "parse_file_references content = refs_from 1 content"
  using finditer_refs_from [of "[]" 0 content] by (simp add: parse_file_references_def)

lemma match_here_nonhex: "\<not> hex_digit c \<Longrightarrow> match_here (c # cs) = None"
  by (simp add: match_here_def)

lemma match_here_Nil: "match_here [] = None"
  by (simp add: match_here_def)

lemma nl_not_hex: "\<not> hex_digit nl"
  by (simp add: hex_digit_def nl_def)

lemma refs_from_local:
  assumes "line_local l"
  shows "suffix t l \<Longrightarrow> refs_from n (t @ nl # rest) = refs_from n t @ refs_from (Suc n) rest"
proof (induction n t rule: refs_from.induct)
  case (1 n)
  show ?case by (simp add: match_here_nonhex nl_not_hex)
next
  case (2 n c cs)
  from assms have "\<forall>t rest. suffix t l \<longrightarrow> match_here (t @ nl # rest) = match_here t"
    by (simp add: line_local_def)
  with "2.prems" have eq: "match_here ((c # cs) @ nl # rest) = match_here (c # cs)"
    by blast
  from "2.prems" have sub: "set (c # cs) \<subseteq> set l" by (rule set_mono_suffix)
  with assms have c: "c \<noteq> nl" and no_nl: "nl \<notin> set (c # cs)"
    by (auto simp: line_local_def)
  show ?case
  proof (cases "match_here (c # cs)")
    case None
    from "2.prems" have "suffix cs l" by (rule suffix_ConsD)
    with None c have "refs_from n (cs @ nl # rest) = refs_from n cs @ refs_from (Suc n) rest"
      using "2.IH"(1) by simp
    with None eq c show ?thesis by simp
  next
    case (Some x)
    obtain u f k where x: "x = (u, f, k)" by (cases x)
    with Some have k: "k \<le> length (c # cs)" by (auto dest: match_here_within)
    have cnt: "count_list (take k (c # cs)) nl = 0"
      using no_nl by (meson count_notin in_set_takeD)
    have "suffix (drop k (c # cs)) l"
      using "2.prems" by (meson suffix_drop suffix_order.trans)
    then have "refs_from n (drop k (c # cs) @ nl # rest)
        = refs_from n (drop k (c # cs)) @ refs_from (Suc n) rest"
      using "2.IH"(2) [OF Some x [symmetric] refl] cnt by simp
    moreover have "take k ((c # cs) @ nl # rest) = take k (c # cs)"
      and "drop k ((c # cs) @ nl # rest) = drop k (c # cs) @ nl # rest"
      using k by (cases k; simp)+
    ultimately show ?thesis using Some x eq cnt by simp
  qed
qed

lemma refs_from_join:
  "\<forall>l \<in> set ls. line_local l \<Longrightarrow>
   refs_from n (str_join nl ls) = concat (map (\<lambda>(i, l). refs_from i l) (enumerate n ls))"
proof (induction ls arbitrary: n)
  case Nil
  show ?case by simp
next
  case (Cons l ls)
  show ?case
  proof (cases ls)
    case Nil
    then show ?thesis by simp
  next
    case (Cons k ks)
    from Cons.prems have "line_local l" by simp
    then have "refs_from n (l @ nl # str_join nl ls) = refs_from n l @ refs_from (Suc n) (str_join nl ls)"
      by (rule refs_from_local) simp
    with Cons Cons.IH [of "Suc n"] Cons.prems show ?thesis by simp
  qed
qed


subsection \<open>Closed lines\<close>

text \<open>
  A test that can be run on a line: wherever 24 characters of \<^verbatim>\<open>[A-F0-9]\<close> start in it, the
  white space after them ends inside the line, and if \<^verbatim>\<open>/*\<close> follows, a \<^verbatim>\<open>*\<close> comes later in
  the line. The pattern is then decided before the line ends, so a closed line is local.
\<close>

definition star :: char where
  "star = CHR ''*''"

definition closed_at :: "string \<Rightarrow> bool" where
  "closed_at t \<longleftrightarrow>
     (if length (take 24 t) = 24 \<and> list_all hex_digit (take 24 t) then
        (let r = dropWhile is_space (drop 24 t)
         in r \<noteq> [] \<and> (if take 2 r = ''/*'' then star \<in> set (drop 2 r) else True))
      else True)"

definition closed_line :: "string \<Rightarrow> bool" where
  "closed_line l \<longleftrightarrow> nl \<notin> set l \<and> list_all closed_at (suffixes l)"

lemma star_facts: "\<not> is_space star" "\<not> not_star star" "nl \<noteq> star" "nl \<noteq> CHR ''/''"
  "\<not> hex_digit nl" "is_space c \<Longrightarrow> not_star c"
  by (auto simp: star_def is_space_def not_star_def nl_def hex_digit_def)

lemma take2_append_nl:
  assumes "d \<noteq> []" and "b \<noteq> nl"
  shows "take 2 (d @ nl # rest) = [a, b] \<longleftrightarrow> take 2 d = [a, b]"
proof (cases d)
  case Nil
  with assms show ?thesis by simp
next
  case (Cons d0 ds)
  with assms show ?thesis by (cases ds) auto
qed

lemma match_close_append:
  assumes "star \<in> set s"
  shows "match_close (s @ nl # rest) = match_close s"
proof -
  from assms have tw: "takeWhile is_space (s @ nl # rest) = takeWhile is_space s"
    and dw: "dropWhile is_space (s @ nl # rest) = dropWhile is_space s @ nl # rest"
    using star_facts(1) by simp_all
  from assms star_facts(1) have "dropWhile is_space s \<noteq> []"
    by (auto simp: dropWhile_eq_Nil_conv)
  then have "take 2 (dropWhile is_space s @ nl # rest) = ''*/'' \<longleftrightarrow> take 2 (dropWhile is_space s) = ''*/''"
    using star_facts(4) by (intro take2_append_nl) auto
  then show ?thesis by (simp add: match_close_def tw dw)
qed

lemma prefix_append_star:
  assumes "star \<in> set s" and "star \<notin> set e"
  shows "prefix e (s @ x) \<longleftrightarrow> prefix e s"
proof
  assume "prefix e (s @ x)"
  then have "prefix e s \<or> (\<exists>us. e = s @ us \<and> prefix us x)" by (simp add: prefix_append)
  with assms show "prefix e s" by auto
next
  assume "prefix e s"
  then show "prefix e (s @ x)" by (rule prefix_prefix)
qed

lemma match_ext_append:
  assumes "star \<in> set s" and "\<forall>e \<in> set es. star \<notin> set e"
  shows "match_ext es (s @ nl # rest) = match_ext es s"
  using assms(2)
proof (induction es)
  case Nil
  show ?case by simp
next
  case (Cons e es)
  then have e: "star \<notin> set e" and IH: "match_ext es (s @ nl # rest) = match_ext es s" by simp_all
  have pre: "prefix e (s @ nl # rest) \<longleftrightarrow> prefix e s"
    using assms(1) e by (rule prefix_append_star)
  show ?case
  proof (cases "prefix e s")
    case False
    with pre IH show ?thesis by simp
  next
    case True
    then obtain s' where s: "s = e @ s'" by (auto simp: prefix_def)
    with assms(1) e have "star \<in> set s'" by auto
    then have "match_close (s' @ nl # rest) = match_close s'" by (rule match_close_append)
    with True pre IH s show ?thesis by (auto split: option.splits)
  qed
qed

lemma extensions_no_star: "\<forall>e \<in> set extensions. star \<notin> set e"
  by (simp add: extensions_def star_def)

lemma append_within:
  assumes "n < length s"
  shows "drop n (s @ x) = drop n s @ x" and "drop n s \<noteq> []" and "take n (s @ x) = take n s"
    and "take 1 (drop n (s @ x)) = take 1 (drop n s)"
proof -
  from assms show d: "drop n (s @ x) = drop n s @ x" and ne: "drop n s \<noteq> []"
    and "take n (s @ x) = take n s"
    by simp_all
  from ne show "take 1 (drop n (s @ x)) = take 1 (drop n s)"
    unfolding d by (cases "drop n s") simp_all
qed

lemma match_name_Suc_cong:
  assumes "take 1 (drop (Suc n) a) = take 1 (drop (Suc n) b)"
    and "take 1 (drop (Suc n) b) = ''.'' \<Longrightarrow>
         match_ext extensions (drop (Suc (Suc n)) a) = match_ext extensions (drop (Suc (Suc n)) b)"
    and "take (Suc n) a = take (Suc n) b"
    and "match_name n a = match_name n b"
  shows "match_name (Suc n) a = match_name (Suc n) b"
proof (cases "take 1 (drop (Suc n) b) = ''.''")
  case True
  with assms show ?thesis by (simp only: match_name.simps if_True)
next
  case False
  with assms(1,4) show ?thesis by (simp only: match_name.simps if_False option.case)
qed

lemma match_name_append:
  assumes "star \<notin> set p"
  shows "n \<le> length p \<Longrightarrow>
         match_name n ((p @ star # q) @ nl # rest) = match_name n (p @ star # q)"
proof (induction n)
  case 0
  show ?case by simp
next
  case (Suc n)
  define s where "s = p @ star # q"
  from Suc.prems have len: "Suc n < length s" by (simp add: s_def)
  note w = append_within [OF len]
  from Suc have IH: "match_name n (s @ nl # rest) = match_name n s" by (simp add: s_def)
  have ext: "match_ext extensions (drop (Suc (Suc n)) (s @ nl # rest))
        = match_ext extensions (drop (Suc (Suc n)) s)"
    if dot: "take 1 (drop (Suc n) s) = ''.''"
  proof -
    have "Suc n \<noteq> length p"
    proof
      assume "Suc n = length p"
      then have "drop (Suc n) s = star # q" by (simp add: s_def)
      with dot show False by (simp add: star_def)
    qed
    with Suc.prems have le: "Suc (Suc n) \<le> length p" by simp
    then have "drop (Suc (Suc n)) s = drop (Suc (Suc n)) p @ star # q" by (simp add: s_def)
    then have "star \<in> set (drop (Suc (Suc n)) s)" by simp
    then have "match_ext extensions (drop (Suc (Suc n)) s @ nl # rest)
        = match_ext extensions (drop (Suc (Suc n)) s)"
      using extensions_no_star by (rule match_ext_append)
    moreover have "drop (Suc (Suc n)) (s @ nl # rest) = drop (Suc (Suc n)) s @ nl # rest"
      using le by (simp add: s_def)
    ultimately show ?thesis by simp
  qed
  have "match_name (Suc n) (s @ nl # rest) = match_name (Suc n) s"
    using w(4) ext w(3) IH by (rule match_name_Suc_cong)
  then show ?case by (simp only: s_def)
qed

lemma takeWhile_not_star: "star \<notin> set p \<Longrightarrow> takeWhile not_star (p @ star # q) = p"
  by (induction p) (auto simp: not_star_def star_def)

lemma match_ws_name_append:
  assumes "star \<notin> set p"
  shows "k \<le> length p \<Longrightarrow>
         match_ws_name k ((p @ star # q) @ nl # rest) = match_ws_name k (p @ star # q)"
proof (induction k)
  case 0
  have "takeWhile not_star ((p @ star # q) @ nl # rest) = p"
    using takeWhile_not_star [OF assms, of "q @ nl # rest"] by simp
  moreover have "takeWhile not_star (p @ star # q) = p"
    using assms by (rule takeWhile_not_star)
  moreover have "match_name (length p) ((p @ star # q) @ nl # rest) = match_name (length p) (p @ star # q)"
    using assms by (rule match_name_append) simp
  ultimately show ?case by (simp only: match_ws_name.simps)
next
  case (Suc k)
  let ?p = "drop (Suc k) p"
  from Suc.prems have d: "drop (Suc k) (p @ star # q) = ?p @ star # q"
    and dx: "drop (Suc k) ((p @ star # q) @ nl # rest) = (?p @ star # q) @ nl # rest"
    by simp_all
  have p': "star \<notin> set ?p" using assms by (meson in_set_dropD)
  have "takeWhile not_star ((?p @ star # q) @ nl # rest) = ?p"
    using takeWhile_not_star [OF p', of "q @ nl # rest"] by simp
  moreover have "takeWhile not_star (?p @ star # q) = ?p"
    using p' by (rule takeWhile_not_star)
  moreover have "match_name (length ?p) ((?p @ star # q) @ nl # rest) = match_name (length ?p) (?p @ star # q)"
    using p' by (rule match_name_append) simp
  moreover from Suc have "match_ws_name k ((p @ star # q) @ nl # rest) = match_ws_name k (p @ star # q)"
    by simp
  ultimately show ?case by (simp only: match_ws_name.simps d dx)
qed

lemma takeWhile_mono_length:
  "(\<And>x. P x \<Longrightarrow> Q x) \<Longrightarrow> length (takeWhile P xs) \<le> length (takeWhile Q xs)"
  by (induction xs) auto

lemma match_here_append:
  assumes "closed_at t"
  shows "match_here (t @ nl # rest) = match_here t"
proof (cases "length (take 24 t) = 24 \<and> list_all hex_digit (take 24 t)")
  case False
  have "\<not> (length (take 24 (t @ nl # rest)) = 24 \<and> list_all hex_digit (take 24 (t @ nl # rest)))"
  proof (cases "24 \<le> length t")
    case True
    with False show ?thesis by simp
  next
    case short: False
    then have "nl \<in> set (take 24 (t @ nl # rest))" by (simp add: take_Cons')
    then show ?thesis using star_facts(5) by (auto simp: list_all_iff)
  qed
  with False show ?thesis by (simp only: match_here_def if_False)
next
  case True
  then have len: "24 \<le> length t" by (simp add: min_def split: if_splits)
  define t' where "t' = drop 24 t"
  define r where "r = dropWhile is_space t'"
  define w where "w = length (takeWhile is_space t')"
  from assms True have r_ne: "r \<noteq> []"
    and star_in: "take 2 r = ''/*'' \<Longrightarrow> star \<in> set (drop 2 r)"
    by (simp_all add: closed_at_def Let_def r_def t'_def split: if_splits)
  from r_ne obtain c where c: "c \<in> set t'" "\<not> is_space c"
    by (auto simp: r_def dropWhile_eq_Nil_conv)
  have t'x: "drop 24 (t @ nl # rest) = t' @ nl # rest" using len by (simp add: t'_def)
  have wx: "length (takeWhile is_space (t' @ nl # rest)) = w"
    using c by (simp add: w_def)
  have w_len: "w + length r = length t'"
    unfolding w_def r_def by (metis length_append takeWhile_dropWhile_id)
  have r_eq: "drop (24 + w) t = r"
    unfolding r_def w_def t'_def by (simp add: dropWhile_eq_drop add.commute)
  have rx: "drop (24 + w) (t @ nl # rest) = r @ nl # rest"
  proof -
    have "24 + w \<le> length t" using w_len len by (simp add: t'_def)
    then show ?thesis using r_eq by simp
  qed
  have tk: "take 24 (t @ nl # rest) = take 24 t" using len by simp
  have two: "take 2 (r @ nl # rest) = ''/*'' \<longleftrightarrow> take 2 r = ''/*''"
    using r_ne star_facts(3) by (intro take2_append_nl) (auto simp: star_def)
  show ?thesis
  proof (cases "take 2 r = ''/*''")
    case no: False
    with two show ?thesis
      by (simp add: match_here_def Let_def tk t'x wx rx r_eq
          t'_def [symmetric] w_def [symmetric] True del: take_append drop_append)
  next
    case yes: True
    then have "star \<in> set (drop 2 r)" by (rule star_in)
    then obtain p q where pq: "drop 2 r = p @ star # q" and p: "star \<notin> set p"
      by (meson split_list_first)
    from yes have "2 \<le> length r"
      by (metis length_take min.cobounded1 length_Cons list.size(3) One_nat_def Suc_1)
    then have d2: "drop 2 (r @ nl # rest) = (p @ star # q) @ nl # rest" using pq by simp
    have k_le: "length (takeWhile is_space (p @ star # q)) \<le> length p"
      using takeWhile_mono_length [of is_space not_star "p @ star # q"]
        takeWhile_not_star [OF p, of q] star_facts(6) by simp
    have kx: "takeWhile is_space ((p @ star # q) @ nl # rest) = takeWhile is_space (p @ star # q)"
      using star_facts(1) by (intro takeWhile_append1 [of star]) simp_all
    have "match_ws_name (length (takeWhile is_space (p @ star # q))) ((p @ star # q) @ nl # rest)
        = match_ws_name (length (takeWhile is_space (p @ star # q))) (p @ star # q)"
      using p k_le by (rule match_ws_name_append)
    with yes two show ?thesis
      by (simp add: match_here_def Let_def tk t'x wx rx r_eq d2 kx pq
          t'_def [symmetric] w_def [symmetric] True del: take_append drop_append append_assoc
          cong: option.case_cong)
  qed
qed

theorem closed_line_local: "closed_line l \<Longrightarrow> line_local l"
  by (auto simp: closed_line_def line_local_def list_all_iff intro: match_here_append)

fun closed_from :: "string \<Rightarrow> bool" where
  "closed_from [] = True"
| "closed_from (c # cs) = ((if hex_digit c then closed_at (c # cs) else True) \<and> closed_from cs)"

lemma closed_at_nonhex: "\<not> hex_digit c \<Longrightarrow> closed_at (c # cs)"
  by (simp add: closed_at_def)

lemma closed_at_Nil: "closed_at []"
  by (simp add: closed_at_def)

lemma closed_from_suffixes: "closed_from l \<longleftrightarrow> list_all closed_at (suffixes l)"
  by (induction l) (auto simp: closed_at_nonhex closed_at_Nil)

lemma closed_line_code [code]: "closed_line l \<longleftrightarrow> nl \<notin> set l \<and> closed_from l"
  by (simp add: closed_line_def closed_from_suffixes)

lemma match_here_guard [code]:
  "match_here s =
     (case s of
        [] \<Rightarrow> None
      | c # cs \<Rightarrow>
          if hex_digit c then
            (if length (take 24 s) = 24 \<and> list_all hex_digit (take 24 s) then
               (let w = length (takeWhile is_space (drop 24 s));
                    r = drop (24 + w) s
                in if take 2 r = ''/*'' then
                     (case match_ws_name (length (takeWhile is_space (drop 2 r))) (drop 2 r) of
                        Some (f, n) \<Rightarrow> Some (take 24 s, f, 24 + w + 2 + n)
                      | None \<Rightarrow> None)
                   else None)
             else None)
          else None)"
  by (cases s) (auto simp: match_here_def)

lemma parse_file_references_lines:
  assumes "list_all closed_line ls"
  shows "parse_file_references (str_join nl ls)
         = concat (map (\<lambda>(i, l). refs_from i l) (enumerate 1 ls))"
proof -
  from assms have "\<forall>l \<in> set ls. line_local l"
    by (auto simp: list_all_iff intro: closed_line_local)
  then show ?thesis by (simp add: parse_file_references_refs_from refs_from_join)
qed

lemma remove_duplicate_references_lines:
  assumes "ls \<noteq> []" and "list_all closed_line ls"
  shows "remove_duplicate_references (str_join nl ls) duplicates =
     (str_join nl (filter (\<lambda>ln. \<not> hit (uuids_to_remove duplicates) ln) ls),
      length (filter (hit (uuids_to_remove duplicates)) ls))"
proof -
  from assms(2) have "\<forall>l \<in> set ls. nl \<notin> set l" by (auto simp: list_all_iff closed_line_def)
  with assms(1) have "str_split nl (str_join nl ls) = ls" by (rule str_split_join)
  then show ?thesis by (simp add: remove_duplicate_references_eq)
qed

lemma contains_join_iff:
  assumes "nl \<notin> set m" and "m \<noteq> []"
  shows "contains m (str_join nl ls) \<longleftrightarrow> list_ex (contains m) ls"
  using assms by (auto simp: list_ex_iff dest: contains_join_line intro: contains_line_join)

lemma count_list_join:
  "c \<noteq> sep \<Longrightarrow> count_list (str_join sep ls) c = sum_list (map (\<lambda>l. count_list l c) ls)"
  by (induction sep ls rule: str_join.induct) simp_all


section \<open>Example documents\<close>

definition uuid_A :: string where
  "uuid_A = ''AAAA0000000000000000AAAA''"

definition uuid_B :: string where
  "uuid_B = ''BBBB0000000000000000BBBB''"

definition uuid_C :: string where
  "uuid_C = ''CCCC0000000000000000CCCC''"

definition uuid_D :: string where
  "uuid_D = ''DDDD0000000000000000DDDD''"

text \<open>Two files, each referenced once.\<close>

definition two_files_doc :: string where
  "two_files_doc = str_join nl [uuid_A @ '' /* Foo.swift */,'', uuid_B @ '' /* Bar.m */,'']"

text \<open>One file name under two identifiers, on lines 1 and 3.\<close>

definition plain_duplicate_doc :: string where
  "plain_duplicate_doc =
     str_join nl [uuid_A @ '' /* Foo.swift */,'', ''children = ('', uuid_B @ '' /* Foo.swift */,'']"

text \<open>One file name under two identifiers, both on line 1.\<close>

definition same_line_doc :: string where
  "same_line_doc = uuid_A @ '' /* Foo.swift */, '' @ uuid_B @ '' /* Foo.swift */,''"


section \<open>The claims\<close>

subsection \<open>C7: a document without duplicates\<close>

text \<open>
  C7. When no two scanned references of a document have the same file name, the analyzer
  reports no duplicate group, and the remover returns the input text unchanged with a
  count of 0.
\<close>

theorem no_duplicates_terminal_state:
  assumes "distinct (map filename (parse_file_references content))"
  shows "duplicates_of content = [] \<and> cleaned content = (content, 0)"
  using assms by (simp add: no_duplicates_cleaned)

text \<open>C7 at \<^const>\<open>two_files_doc\<close>, whose two references have different names.\<close>

theorem no_duplicates_terminal_state_witness:
  "distinct (map filename (parse_file_references two_files_doc)) \<and>
   duplicates_of two_files_doc = [] \<and> cleaned two_files_doc = (two_files_doc, 0)"
proof -
  have h: "distinct (map filename (parse_file_references two_files_doc))"
    by code_simp
  from no_duplicates_terminal_state [OF h] h show ?thesis by simp
qed


subsection \<open>C8: the kept reference comes first\<close>

text \<open>
  C8, as stated, fails: two references of one name on the same line have the same line
  number, so the kept reference is not strictly before the removed one. In
  \<^const>\<open>same_line_doc\<close> both are on line 1.
\<close>

theorem keep_before_remove_counterexample:
  "duplicates_of same_line_doc =
     [(''Foo.swift'',
       \<lparr>keep = \<lparr>uuid = uuid_A, filename = ''Foo.swift'', line = 1,
                 full_match = uuid_A @ '' /* Foo.swift */''\<rparr>,
        to_remove = [\<lparr>uuid = uuid_B, filename = ''Foo.swift'', line = 1,
                      full_match = uuid_B @ '' /* Foo.swift */''\<rparr>]\<rparr>)] \<and>
   \<not> line (keep (snd (duplicates_of same_line_doc ! 0)))
       < line (to_remove (snd (duplicates_of same_line_doc ! 0)) ! 0)"
  by code_simp

text \<open>
  C8, amended. In every duplicate group of every document, the line number of the kept
  reference is less than or equal to the line number of each reference to remove.
\<close>

theorem keep_not_after_remove:
  assumes "(name, info) \<in> set (duplicates_of content)" and "r \<in> set (to_remove info)"
  shows "line (keep info) \<le> line r"
  using assms unfolding duplicates_of_def by (rule analyze_duplicates_keep_first)

text \<open>C8, amended, at \<^const>\<open>plain_duplicate_doc\<close>: the group of \<^verbatim>\<open>Foo.swift\<close>, lines 1 and 3.\<close>

theorem keep_not_after_remove_witness:
  "(''Foo.swift'',
    \<lparr>keep = \<lparr>uuid = uuid_A, filename = ''Foo.swift'', line = 1,
              full_match = uuid_A @ '' /* Foo.swift */''\<rparr>,
     to_remove = [\<lparr>uuid = uuid_B, filename = ''Foo.swift'', line = 3,
                   full_match = uuid_B @ '' /* Foo.swift */''\<rparr>]\<rparr>)
     \<in> set (duplicates_of plain_duplicate_doc) \<and>
   line \<lparr>uuid = uuid_A, filename = ''Foo.swift'', line = 1,
         full_match = uuid_A @ '' /* Foo.swift */''\<rparr>
   \<le> line \<lparr>uuid = uuid_B, filename = ''Foo.swift'', line = 3,
           full_match = uuid_B @ '' /* Foo.swift */''\<rparr>"
proof -
  let ?a = "\<lparr>uuid = uuid_A, filename = ''Foo.swift'', line = 1,
             full_match = uuid_A @ '' /* Foo.swift */''\<rparr>"
  let ?b = "\<lparr>uuid = uuid_B, filename = ''Foo.swift'', line = 3,
             full_match = uuid_B @ '' /* Foo.swift */''\<rparr>"
  have h: "(''Foo.swift'', \<lparr>keep = ?a, to_remove = [?b]\<rparr>) \<in> set (duplicates_of plain_duplicate_doc)"
    by code_simp
  have "line (keep \<lparr>keep = ?a, to_remove = [?b]\<rparr>) \<le> line ?b"
    using h by (rule keep_not_after_remove) simp
  with h show ?thesis by simp
qed

end
